theory Spec2Isabelle
  imports Complex_Main "HOL-Library.AList" "HOL-Library.Multiset"
begin

section \<open>Elevation analysis: the \<open>processData\<close> pipeline of ElevationAnalysis.js\<close>

text \<open>
  The component's only algorithmic content is \<open>processData\<close> (lines 70-165): it groups
  the parsed rows by site and year, sorts both years' rows of a site by along-track
  distance, joins them through a table keyed by the distance rounded to three decimals,
  and integrates the elevation difference along the distance with the trapezoidal rule.

  Numbers are modelled as exact reals: the rounding of IEEE doubles, NaN and the
  infinities are outside this embedding. A row is taken as the parser's dynamic typing
  delivers a well-formed line: a string site, an integer year, numeric distance and
  elevation.
\<close>

subsection \<open>Data\<close>

record dist =
  distAlong :: real

text \<open>A parsed row of the table (only the four columns the pipeline reads).\<close>

record raw_record = dist +
  site :: string
  year :: int
  elevation :: real

text \<open>The object stored in \<open>matchedPoints\<close> (lines 105-110 and 119-124); \<open>None\<close> is \<open>null\<close>.\<close>

record matched_point = dist +
  elev2021 :: "real option"
  elev2024 :: "real option"
  diff :: "real option"

text \<open>An entry of \<open>differencesBySite[site]\<close> (lines 135-138).\<close>

record difference_point = dist +
  difference :: "real option"

text \<open>An entry of \<open>integralBySite[site]\<close> (lines 150-153).\<close>

record integral_point = dist +
  integral :: real

text \<open>The entry \<open>byYearSite[site]\<close> (lines 94-97), with its two keys 2021 and 2024.\<close>

record year_profiles =
  y2021 :: "raw_record list"
  y2024 :: "raw_record list"

text \<open>The part of the state object handed to \<open>setData\<close> (lines 157-164) that is computed.\<close>

record result =
  byYearSite :: "string \<rightharpoonup> year_profiles"
  differencesBySite :: "string \<rightharpoonup> difference_point list"
  integralBySite :: "string \<rightharpoonup> integral_point list"
  sites :: "string list"

subsection \<open>JavaScript primitives used by the pipeline\<close>

text \<open>\<open>ToNumber\<close> on a value that is a number or \<open>null\<close>: \<open>null\<close> becomes 0.\<close>

definition toNumber :: "real option \<Rightarrow> real" where
  "toNumber v = (case v of None \<Rightarrow> 0 | Some x \<Rightarrow> x)"

text \<open>The decimal rendering of an integer, as a template literal prints a number.\<close>

definition digitChar :: "nat \<Rightarrow> char" where
  "digitChar d = ''0123456789'' ! d"

function digitsOf :: "int \<Rightarrow> string" where
  "digitsOf n =
     (if n < 10 then [digitChar (nat n)]
      else digitsOf (n div 10) @ [digitChar (nat (n mod 10))])"
  by pat_completeness auto
termination
  by (relation "measure nat") auto

declare digitsOf.simps [simp del]

definition numberToString :: "int \<Rightarrow> string" where
  "numberToString y = (if y < 0 then CHR ''-'' # digitsOf (- y) else digitsOf y)"

text \<open>The grouping key \<^verbatim>\<open>`${row.site}_${row.year}`\<close> (line 72, and lines 87 and 90).\<close>

definition siteYearKey :: "string \<Rightarrow> int \<Rightarrow> string" where
  "siteYearKey s y = s @ ''_'' @ numberToString y"

text \<open>
  \<open>Number.prototype.toFixed(3)\<close>. The string it returns is a sign, then either the
  digits of the integer \<open>n\<close> nearest to \<open>|x| * 1000\<close> (the larger one on a tie) with
  a point before the last three, or, from \<open>10^21\<close> on, the number's own rendering.
  The table only compares these strings, so a key is modelled by what the string
  encodes: the sign and \<open>n\<close>, or the sign and the number itself.
\<close>

datatype dist_key = Fixed bool nat | Exponential bool real

definition toFixed3 :: "real \<Rightarrow> dist_key" where
  "toFixed3 x =
     (let s = (x < 0); a = (if x < 0 then - x else x)
      in if 10 ^ 21 \<le> a then Exponential s a
         else Fixed s (nat \<lfloor>a * 1000 + 1 / 2\<rfloor>))"

text \<open>
  \<open>Array.prototype.sort((a, b) => a.distAlong - b.distAlong)\<close>: ascending by distance
  and stable, which determines the result.
\<close>

definition sortByDist :: "'a dist_scheme list \<Rightarrow> 'a dist_scheme list" where
  "sortByDist arr = sort_key distAlong arr"

text \<open>
  lodash's \<open>groupBy\<close>: each element is appended to the array stored under its key, in
  the order of the collection.
\<close>

definition groupBy_step :: "('a \<Rightarrow> 'k) \<Rightarrow> ('k \<rightharpoonup> 'a list) \<Rightarrow> 'a \<Rightarrow> ('k \<rightharpoonup> 'a list)" where
  "groupBy_step iteratee res v =
     (let key = iteratee v
      in case res key of
           Some g \<Rightarrow> res(key \<mapsto> g @ [v])
         | None \<Rightarrow> res(key \<mapsto> [v]))"

definition groupBy :: "'a list \<Rightarrow> ('a \<Rightarrow> 'k) \<Rightarrow> ('k \<rightharpoonup> 'a list)" where
  "groupBy collection iteratee = foldl (groupBy_step iteratee) Map.empty collection"

text \<open>\<open>[...new Set(xs)]\<close>: the distinct elements in the order of their first occurrence.\<close>

fun newSet :: "'a list \<Rightarrow> 'a list \<Rightarrow> 'a list" where
  "newSet acc [] = acc"
| "newSet acc (x # xs) = newSet (if x \<in> set acc then acc else acc @ [x]) xs"

text \<open>\<open>bySiteYear[key] || []\<close>.\<close>

definition orEmpty :: "'a list option \<Rightarrow> 'a list" where
  "orEmpty g = (case g of None \<Rightarrow> [] | Some rows \<Rightarrow> rows)"

subsection \<open>The aligner (lines 101-132)\<close>

text \<open>
  \<open>matchedPoints\<close> is a plain object whose keys are never array indices, so
  \<open>Object.values\<close> lists its values in the order in which the keys were first written:
  an association list, where writing an existing key replaces the value in place.
\<close>

type_synonym matched_table = "(dist_key \<times> matched_point) list"

text \<open>The body of the first \<open>forEach\<close> (lines 102-111).\<close>

definition insert2021 :: "matched_table \<Rightarrow> raw_record \<Rightarrow> matched_table" where
  "insert2021 matchedPoints row =
     (let roundedDist = toFixed3 (distAlong row)
      in AList.update roundedDist
           \<lparr>distAlong = distAlong row, elev2021 = Some (elevation row),
            elev2024 = None, diff = None\<rparr> matchedPoints)"

text \<open>The body of the second \<open>forEach\<close> (lines 113-126).\<close>

definition insert2024 :: "matched_table \<Rightarrow> raw_record \<Rightarrow> matched_table" where
  "insert2024 matchedPoints row =
     (let roundedDist = toFixed3 (distAlong row)
      in case map_of matchedPoints roundedDist of
           Some p \<Rightarrow>
             AList.update roundedDist
               (p\<lparr>elev2024 := Some (elevation row),
                  diff := Some (elevation row - toNumber (elev2021 p))\<rparr>) matchedPoints
         | None \<Rightarrow>
             AList.update roundedDist
               \<lparr>distAlong = distAlong row, elev2021 = None,
                elev2024 = Some (elevation row), diff = None\<rparr> matchedPoints)"

definition table2021 :: "raw_record list \<Rightarrow> matched_table" where
  "table2021 data2021 = foldl insert2021 [] data2021"

definition matchedPointsOf :: "raw_record list \<Rightarrow> raw_record list \<Rightarrow> matched_table" where
  "matchedPointsOf data2021 data2024 = foldl insert2024 (table2021 data2021) data2024"

text \<open>Lines 130-132: \<open>Object.values\<close>, the filter on both elevations, the sort.\<close>

definition matchedPointsArrayOf :: "matched_table \<Rightarrow> matched_point list" where
  "matchedPointsArrayOf matchedPoints =
     sortByDist (filter (\<lambda>point. elev2021 point \<noteq> None \<and> elev2024 point \<noteq> None)
                        (map snd matchedPoints))"

subsection \<open>Differences and integral (lines 135-154)\<close>

definition differencesOf :: "matched_point list \<Rightarrow> difference_point list" where
  "differencesOf arr =
     map (\<lambda>point. \<lparr>distAlong = distAlong point, difference = diff point\<rparr>) arr"

text \<open>
  The callback of the second \<open>map\<close> (lines 142-154) updates the captured \<open>runningSum\<close>
  and returns an entry; \<open>integralStep\<close> is the update, \<open>integralLoop\<close> runs the callback
  over the indices with the sum threaded through.
\<close>

definition integralStep :: "matched_point list \<Rightarrow> nat \<Rightarrow> real \<Rightarrow> real" where
  "integralStep arr index runningSum =
     (if index > 0 then
        (let actualDx = distAlong (arr ! index) - distAlong (arr ! (index - 1));
             avgDiff = (toNumber (diff (arr ! index)) + toNumber (diff (arr ! (index - 1)))) / 2
         in runningSum + avgDiff * actualDx)
      else runningSum)"

fun integralLoop :: "matched_point list \<Rightarrow> nat list \<Rightarrow> real \<Rightarrow> integral_point list" where
  "integralLoop arr [] runningSum = []"
| "integralLoop arr (index # rest) runningSum =
     (let runningSum' = integralStep arr index runningSum
      in \<lparr>distAlong = distAlong (arr ! index), integral = runningSum'\<rparr>
           # integralLoop arr rest runningSum')"

definition integralOf :: "matched_point list \<Rightarrow> integral_point list" where
  "integralOf arr = integralLoop arr [0..<length arr] 0"

subsection \<open>\<open>processData\<close> (lines 70-165)\<close>

definition data2021Of :: "(string \<rightharpoonup> raw_record list) \<Rightarrow> string \<Rightarrow> raw_record list" where
  "data2021Of bySiteYear s = sortByDist (orEmpty (bySiteYear (siteYearKey s 2021)))"

definition data2024Of :: "(string \<rightharpoonup> raw_record list) \<Rightarrow> string \<Rightarrow> raw_record list" where
  "data2024Of bySiteYear s = sortByDist (orEmpty (bySiteYear (siteYearKey s 2024)))"

text \<open>The body of \<open>sites.forEach\<close> (lines 85-155), on the three objects it fills.\<close>

definition processSite :: "(string \<rightharpoonup> raw_record list) \<Rightarrow> result \<Rightarrow> string \<Rightarrow> result" where
  "processSite bySiteYear st s =
     (let data2021 = data2021Of bySiteYear s;
          data2024 = data2024Of bySiteYear s;
          matchedPoints = matchedPointsOf data2021 data2024;
          matchedPointsArray = matchedPointsArrayOf matchedPoints
      in st\<lparr>byYearSite := (byYearSite st)(s \<mapsto> \<lparr>y2021 = data2021, y2024 = data2024\<rparr>),
            differencesBySite := (differencesBySite st)(s \<mapsto> differencesOf matchedPointsArray),
            integralBySite := (integralBySite st)(s \<mapsto> integralOf matchedPointsArray)\<rparr>)"

definition processData :: "raw_record list \<Rightarrow> result" where
  "processData rawData =
     (let bySiteYear = groupBy rawData (\<lambda>row. siteYearKey (site row) (year row));
          sites = newSet [] (map site rawData)
      in foldl (processSite bySiteYear)
           \<lparr>byYearSite = Map.empty, differencesBySite = Map.empty,
            integralBySite = Map.empty, sites = sites\<rparr> sites)"

subsection \<open>Vocabulary of the properties\<close>

text \<open>The rows of one site and year, in input order.\<close>

definition rowsOf :: "raw_record list \<Rightarrow> string \<Rightarrow> int \<Rightarrow> raw_record list" where
  "rowsOf rawData s y = filter (\<lambda>row. site row = s \<and> year row = y) rawData"

text \<open>The rounding key of a point.\<close>

definition keyOf :: "'a dist_scheme \<Rightarrow> dist_key" where
  "keyOf p = toFixed3 (distAlong p)"

text \<open>The rows of a profile that round to a key, and the last of them.\<close>

definition withKey :: "dist_key \<Rightarrow> raw_record list \<Rightarrow> raw_record list" where
  "withKey k profile = filter (\<lambda>row. keyOf row = k) profile"

definition lastWithKey :: "dist_key \<Rightarrow> raw_record list \<Rightarrow> raw_record option" where
  "lastWithKey k profile =
     (case withKey k profile of [] \<Rightarrow> None | r # rs \<Rightarrow> Some (last (r # rs)))"

text \<open>The profile of a site and year: its rows sorted by distance.\<close>

definition profileOf :: "raw_record list \<Rightarrow> string \<Rightarrow> int \<Rightarrow> raw_record list" where
  "profileOf rawData s y = sortByDist (rowsOf rawData s y)"

text \<open>The matched points of a site that carry both elevations, sorted by distance.\<close>

definition alignedOf :: "raw_record list \<Rightarrow> string \<Rightarrow> matched_point list" where
  "alignedOf rawData s =
     matchedPointsArrayOf
       (matchedPointsOf (profileOf rawData s 2021) (profileOf rawData s 2024))"

subsection \<open>Example inputs\<close>

text \<open>Site AHA surveyed at distances 0 and 1 in both years.\<close>

definition exampleRows :: "raw_record list" where
  "exampleRows =
     [\<lparr>distAlong = 0, site = ''AHA'', year = 2021, elevation = 10\<rparr>,
      \<lparr>distAlong = 1, site = ''AHA'', year = 2021, elevation = 12\<rparr>,
      \<lparr>distAlong = 0, site = ''AHA'', year = 2024, elevation = 11\<rparr>,
      \<lparr>distAlong = 1, site = ''AHA'', year = 2024, elevation = 11\<rparr>]"

text \<open>Two matched points at the same distance.\<close>

definition exampleZeroWidth :: "matched_point list" where
  "exampleZeroWidth =
     [\<lparr>distAlong = 1, elev2021 = Some 10, elev2024 = Some 11, diff = Some 1\<rparr>,
      \<lparr>distAlong = 1, elev2021 = Some 10, elev2024 = Some 13, diff = Some 3\<rparr>]"


text \<open>
  Site MID with two rows of each year rounding to the key 0.100, given out of order.
\<close>

definition exampleCollision :: "raw_record list" where
  "exampleCollision =
     [\<lparr>distAlong = 1, site = ''MID'', year = 2021, elevation = 5\<rparr>,
      \<lparr>distAlong = 1004 / 10000, site = ''MID'', year = 2021, elevation = 20\<rparr>,
      \<lparr>distAlong = 1003 / 10000, site = ''MID'', year = 2024, elevation = 14\<rparr>,
      \<lparr>distAlong = 1001 / 10000, site = ''MID'', year = 2021, elevation = 10\<rparr>,
      \<lparr>distAlong = 2, site = ''MID'', year = 2024, elevation = 7\<rparr>,
      \<lparr>distAlong = 1002 / 10000, site = ''MID'', year = 2024, elevation = 11\<rparr>]"

text \<open>The two profiles of that site, sorted by distance.\<close>

definition exampleCollision2021 :: "raw_record list" where
  "exampleCollision2021 =
     [\<lparr>distAlong = 1001 / 10000, site = ''MID'', year = 2021, elevation = 10\<rparr>,
      \<lparr>distAlong = 1004 / 10000, site = ''MID'', year = 2021, elevation = 20\<rparr>,
      \<lparr>distAlong = 1, site = ''MID'', year = 2021, elevation = 5\<rparr>]"

definition exampleCollision2024 :: "raw_record list" where
  "exampleCollision2024 =
     [\<lparr>distAlong = 1002 / 10000, site = ''MID'', year = 2024, elevation = 11\<rparr>,
      \<lparr>distAlong = 1003 / 10000, site = ''MID'', year = 2024, elevation = 14\<rparr>,
      \<lparr>distAlong = 2, site = ''MID'', year = 2024, elevation = 7\<rparr>]"

text \<open>Site FAL surveyed only in 2021, site LGR only in 2024.\<close>

definition exampleOneYear :: "raw_record list" where
  "exampleOneYear =
     [\<lparr>distAlong = 1, site = ''FAL'', year = 2021, elevation = 3\<rparr>,
      \<lparr>distAlong = 0, site = ''FAL'', year = 2021, elevation = 2\<rparr>,
      \<lparr>distAlong = 0, site = ''LGR'', year = 2024, elevation = 1\<rparr>]"

text \<open>Two 2021 rows of site MCC at the same distance, in both input orders.\<close>

definition exampleTie :: "raw_record list" where
  "exampleTie =
     [\<lparr>distAlong = 0, site = ''MCC'', year = 2021, elevation = 10\<rparr>,
      \<lparr>distAlong = 0, site = ''MCC'', year = 2021, elevation = 20\<rparr>,
      \<lparr>distAlong = 0, site = ''MCC'', year = 2024, elevation = 5\<rparr>]"

definition exampleTieShuffled :: "raw_record list" where
  "exampleTieShuffled =
     [\<lparr>distAlong = 0, site = ''MCC'', year = 2021, elevation = 20\<rparr>,
      \<lparr>distAlong = 0, site = ''MCC'', year = 2021, elevation = 10\<rparr>,
      \<lparr>distAlong = 0, site = ''MCC'', year = 2024, elevation = 5\<rparr>]"

section \<open>Properties\<close>

subsection \<open>The grouping key determines site and year\<close>

lemma digitChar_mem: "d < 10 \<Longrightarrow> digitChar d \<in> set ''0123456789''"
  unfolding digitChar_def by (rule nth_mem) simp

lemma digitChar_inj: "a < 10 \<Longrightarrow> b < 10 \<Longrightarrow> digitChar a = digitChar b \<Longrightarrow> a = b"
  unfolding digitChar_def using nth_eq_iff_index_eq [of "''0123456789''" a b] by simp

lemma digitsOf_small: "n < 10 \<Longrightarrow> digitsOf n = [digitChar (nat n)]"
  by (subst digitsOf.simps) simp

lemma digitsOf_large:
  "\<not> n < 10 \<Longrightarrow> digitsOf n = digitsOf (n div 10) @ [digitChar (nat (n mod 10))]"
  by (subst digitsOf.simps) simp

lemma digitsOf_within:
  assumes "\<And>d. d < 10 \<Longrightarrow> digitChar d \<in> D"
  shows "set (digitsOf n) \<subseteq> D"
proof (induction n rule: digitsOf.induct)
  case (1 n)
  show ?case
  proof (cases "n < 10")
    case True
    then have "digitChar (nat n) \<in> D" by (intro assms) simp
    with True show ?thesis by (simp add: digitsOf_small)
  next
    case False
    have "digitChar (nat (n mod 10)) \<in> D" by (intro assms) simp
    with 1 [OF False] False show ?thesis by (simp add: digitsOf_large)
  qed
qed

lemma digitsOf_chars: "set (digitsOf n) \<subseteq> set ''0123456789''"
  by (rule digitsOf_within) (rule digitChar_mem)

lemma digitsOf_nonempty: "digitsOf n \<noteq> []"
  by (cases "n < 10") (simp_all add: digitsOf_small digitsOf_large)

lemma digitsOf_inj: "0 \<le> a \<Longrightarrow> 0 \<le> b \<Longrightarrow> digitsOf a = digitsOf b \<Longrightarrow> a = b"
proof (induction a arbitrary: b rule: digitsOf.induct)
  case (1 a)
  show ?case
  proof (cases "a < 10")
    case a: True
    show ?thesis
    proof (cases "b < 10")
      case True
      with a 1 have "digitChar (nat a) = digitChar (nat b)"
        by (simp add: digitsOf_small)
      moreover have "nat a < 10" "nat b < 10" using a True by simp_all
      ultimately have "nat a = nat b" by (rule digitChar_inj [rotated 2])
      with 1 show ?thesis by simp
    next
      case False
      with a 1 digitsOf_nonempty [of "b div 10"] show ?thesis
        by (simp add: digitsOf_small digitsOf_large)
    qed
  next
    case a: False
    show ?thesis
    proof (cases "b < 10")
      case True
      with a 1 digitsOf_nonempty [of "a div 10"] show ?thesis
        by (simp add: digitsOf_small digitsOf_large)
    next
      case False
      with a 1 have eq: "digitsOf (a div 10) = digitsOf (b div 10)"
        and d: "digitChar (nat (a mod 10)) = digitChar (nat (b mod 10))"
        by (simp_all add: digitsOf_large)
      have "a div 10 = b div 10"
        using 1(1) [OF a _ _ eq] 1(2,3) by simp
      moreover have "nat (a mod 10) = nat (b mod 10)"
        by (rule digitChar_inj [OF _ _ d]) simp_all
      then have "a mod 10 = b mod 10" by simp
      ultimately show ?thesis by (metis mult_div_mod_eq)
    qed
  qed
qed

lemma digit_not_separator:
  "c \<in> set ''0123456789'' \<Longrightarrow> c \<noteq> CHR ''_'' \<and> c \<noteq> CHR ''-''"
  by auto

lemma digitsOf_no_separator:
  "CHR ''_'' \<notin> set (digitsOf n)" "CHR ''-'' \<notin> set (digitsOf n)"
  using digitsOf_chars [of n] digit_not_separator by blast+

lemma numberToString_chars: "CHR ''_'' \<notin> set (numberToString y)"
  by (simp add: numberToString_def digitsOf_no_separator)

lemma numberToString_inj: "numberToString a = numberToString b \<Longrightarrow> a = b"
proof -
  assume eq: "numberToString a = numberToString b"
  have no_minus: "hd (digitsOf n) \<noteq> CHR ''-''" for n
    using digitsOf_no_separator(2) [of n] digitsOf_nonempty [of n] hd_in_set [of "digitsOf n"]
    by metis
  consider "a < 0" "b < 0" | "a < 0" "\<not> b < 0" | "\<not> a < 0" "b < 0" | "\<not> a < 0" "\<not> b < 0"
    by blast
  then show ?thesis
  proof cases
    case 1
    with eq have "digitsOf (- a) = digitsOf (- b)" by (simp add: numberToString_def)
    with 1 digitsOf_inj [of "- a" "- b"] show ?thesis by simp
  next
    case 2
    with eq no_minus [of b] show ?thesis
      by (cases "digitsOf b") (auto simp: numberToString_def)
  next
    case 3
    with eq no_minus [of a] show ?thesis
      by (cases "digitsOf a") (auto simp: numberToString_def)
  next
    case 4
    with eq digitsOf_inj [of a b] show ?thesis by (simp add: numberToString_def)
  qed
qed

lemma split_at_last_separator:
  "c \<notin> set t \<Longrightarrow> c \<notin> set t' \<Longrightarrow> s @ c # t = s' @ c # t' \<Longrightarrow> s = s' \<and> t = t'"
proof (induction s arbitrary: s')
  case Nil
  then show ?case by (cases s') auto
next
  case (Cons x xs)
  then show ?case by (cases s') auto
qed

lemma siteYearKey_eq_iff [simp]:
  "siteYearKey s y = siteYearKey s' y' \<longleftrightarrow> s = s' \<and> y = y'"
proof
  assume "siteYearKey s y = siteYearKey s' y'"
  then have "s @ CHR ''_'' # numberToString y = s' @ CHR ''_'' # numberToString y'"
    by (simp add: siteYearKey_def)
  from split_at_last_separator [OF numberToString_chars numberToString_chars this]
  show "s = s' \<and> y = y'" by (auto dest: numberToString_inj)
qed simp

subsection \<open>Grouping and the site set\<close>

lemma groupBy_foldl:
  "foldl (groupBy_step f) m xs k =
     (case m k of
        None \<Rightarrow> (if k \<in> f ` set xs then Some (filter (\<lambda>x. f x = k) xs) else None)
      | Some g \<Rightarrow> Some (g @ filter (\<lambda>x. f x = k) xs))"
proof (induction xs arbitrary: m)
  case Nil
  then show ?case by (simp split: option.splits)
next
  case (Cons x xs)
  show ?case
    by (simp add: Cons.IH) (auto simp: groupBy_step_def Let_def split: option.splits)
qed

lemma orEmpty_groupBy: "orEmpty (groupBy xs f k) = filter (\<lambda>x. f x = k) xs"
  by (auto simp: groupBy_def groupBy_foldl orEmpty_def empty_filter_conv)

lemma set_newSet: "set (newSet acc xs) = set acc \<union> set xs"
  by (induction xs arbitrary: acc) auto

subsection \<open>What \<open>processData\<close> stores for a site\<close>

lemma data2021Of_groupBy:
  "data2021Of (groupBy rawData (\<lambda>row. siteYearKey (site row) (year row))) s
     = profileOf rawData s 2021"
  by (simp add: data2021Of_def orEmpty_groupBy profileOf_def rowsOf_def)

lemma data2024Of_groupBy:
  "data2024Of (groupBy rawData (\<lambda>row. siteYearKey (site row) (year row))) s
     = profileOf rawData s 2024"
  by (simp add: data2024Of_def orEmpty_groupBy profileOf_def rowsOf_def)

lemma foldl_processSite_byYearSite:
  "byYearSite (foldl (processSite g) st ss) s =
     (if s \<in> set ss then Some \<lparr>y2021 = data2021Of g s, y2024 = data2024Of g s\<rparr>
      else byYearSite st s)"
  by (induction ss arbitrary: st) (auto simp: processSite_def Let_def)

lemma foldl_processSite_differences:
  "differencesBySite (foldl (processSite g) st ss) s =
     (if s \<in> set ss
      then Some (differencesOf (matchedPointsArrayOf
                   (matchedPointsOf (data2021Of g s) (data2024Of g s))))
      else differencesBySite st s)"
  by (induction ss arbitrary: st) (auto simp: processSite_def Let_def)

lemma foldl_processSite_integral:
  "integralBySite (foldl (processSite g) st ss) s =
     (if s \<in> set ss
      then Some (integralOf (matchedPointsArrayOf
                   (matchedPointsOf (data2021Of g s) (data2024Of g s))))
      else integralBySite st s)"
  by (induction ss arbitrary: st) (auto simp: processSite_def Let_def)

lemma foldl_processSite_sites: "sites (foldl (processSite g) st ss) = sites st"
  by (induction ss arbitrary: st) (auto simp: processSite_def Let_def)

lemma processData_byYearSite:
  "byYearSite (processData rawData) s =
     (if s \<in> site ` set rawData
      then Some \<lparr>y2021 = profileOf rawData s 2021, y2024 = profileOf rawData s 2024\<rparr>
      else None)"
  by (simp add: processData_def Let_def foldl_processSite_byYearSite set_newSet
      data2021Of_groupBy data2024Of_groupBy)

lemma processData_differences:
  "differencesBySite (processData rawData) s =
     (if s \<in> site ` set rawData then Some (differencesOf (alignedOf rawData s)) else None)"
  by (simp add: processData_def Let_def foldl_processSite_differences set_newSet
      data2021Of_groupBy data2024Of_groupBy alignedOf_def)

lemma processData_integral:
  "integralBySite (processData rawData) s =
     (if s \<in> site ` set rawData then Some (integralOf (alignedOf rawData s)) else None)"
  by (simp add: processData_def Let_def foldl_processSite_integral set_newSet
      data2021Of_groupBy data2024Of_groupBy alignedOf_def)

subsection \<open>The key table\<close>

lemma withKey_snoc:
  "withKey k (xs @ [x]) = (if keyOf x = k then withKey k xs @ [x] else withKey k xs)"
  by (simp add: withKey_def)

lemma lastWithKey_Nil: "lastWithKey k [] = None"
  by (simp add: lastWithKey_def withKey_def)

lemma lastWithKey_snoc:
  "lastWithKey k (xs @ [x]) = (if keyOf x = k then Some x else lastWithKey k xs)"
  by (cases "withKey k xs") (simp_all add: lastWithKey_def withKey_snoc)

lemma table2021_snoc: "table2021 (xs @ [x]) = insert2021 (table2021 xs) x"
  by (simp add: table2021_def)

lemma table2021_lookup:
  "map_of (table2021 P) k =
     map_option (\<lambda>r. \<lparr>distAlong = distAlong r, elev2021 = Some (elevation r),
                       elev2024 = None, diff = None\<rparr>) (lastWithKey k P)"
proof (induction P rule: rev_induct)
  case Nil
  show ?case by (simp add: table2021_def lastWithKey_Nil)
next
  case (snoc x xs)
  then show ?case
    by (simp add: table2021_snoc lastWithKey_snoc insert2021_def Let_def update_conv' keyOf_def)
qed

lemma insert2024_lookup:
  "map_of (insert2024 T x) k =
     (if keyOf x = k
      then Some (case map_of T k of
                   Some p \<Rightarrow> p\<lparr>elev2024 := Some (elevation x),
                                diff := Some (elevation x - toNumber (elev2021 p))\<rparr>
                 | None \<Rightarrow> \<lparr>distAlong = distAlong x, elev2021 = None,
                             elev2024 = Some (elevation x), diff = None\<rparr>)
      else map_of T k)"
  by (auto simp: insert2024_def Let_def update_conv' keyOf_def split: option.splits)

lemma foldl_insert2024_lookup:
  "map_of (foldl insert2024 T Q) k =
     (case withKey k Q of
        [] \<Rightarrow> map_of T k
      | r # rs \<Rightarrow>
          Some (case map_of T k of
                  Some p \<Rightarrow> p\<lparr>elev2024 := Some (elevation (last (r # rs))),
                               diff := Some (elevation (last (r # rs)) - toNumber (elev2021 p))\<rparr>
                | None \<Rightarrow> \<lparr>distAlong = distAlong r, elev2021 = None,
                            elev2024 = Some (elevation (last (r # rs))),
                            diff = (if rs = [] then None
                                    else Some (elevation (last (r # rs))))\<rparr>))"
proof (induction Q rule: rev_induct)
  case Nil
  show ?case by (simp add: withKey_def)
next
  case (snoc x xs)
  show ?case
  proof (cases "keyOf x = k")
    case False
    with snoc show ?thesis by (simp add: insert2024_lookup withKey_snoc)
  next
    case True
    show ?thesis
    proof (cases "withKey k xs")
      case Nil
      with True snoc show ?thesis
        by (simp add: insert2024_lookup withKey_snoc split: option.splits)
    next
      case (Cons r rs)
      with True snoc show ?thesis
        by (simp add: insert2024_lookup withKey_snoc toNumber_def split: option.splits)
    qed
  qed
qed

lemma set_sites_processData: "set (sites (processData rawData)) = site ` set rawData"
  by (simp add: processData_def Let_def foldl_processSite_sites set_newSet)

subsection \<open>The integrator\<close>

lemma length_integralLoop: "length (integralLoop arr idxs r) = length idxs"
  by (induction idxs arbitrary: r) (simp_all add: Let_def)

lemma integralLoop_nth:
  "i < length idxs \<Longrightarrow>
   integralLoop arr idxs r ! i =
     \<lparr>distAlong = distAlong (arr ! (idxs ! i)),
      integral = foldl (\<lambda>acc j. integralStep arr j acc) r (take (Suc i) idxs)\<rparr>"
proof (induction idxs arbitrary: r i)
  case Nil
  then show ?case by simp
next
  case (Cons x xs)
  then show ?case by (cases i) (simp_all add: Let_def)
qed

lemma length_integralOf: "length (integralOf arr) = length arr"
  by (simp add: integralOf_def length_integralLoop)

lemma integralOf_nth:
  assumes "i < length arr"
  shows "integralOf arr ! i =
     \<lparr>distAlong = distAlong (arr ! i),
      integral = foldl (\<lambda>acc j. integralStep arr j acc) 0 [0..<Suc i]\<rparr>"
proof -
  have "take (Suc i) [0..<length arr] = [0..<Suc i]"
    using assms by (simp only: take_upt) simp
  with assms show ?thesis
    by (simp add: integralOf_def integralLoop_nth del: upt_Suc)
qed

lemma integralOf_first: "arr \<noteq> [] \<Longrightarrow> integral (integralOf arr ! 0) = 0"
  by (simp add: integralOf_nth integralStep_def)

lemma integralOf_rec:
  assumes "0 < i" "i < length arr"
  shows "integral (integralOf arr ! i) =
     integral (integralOf arr ! (i - 1))
       + (toNumber (diff (arr ! i)) + toNumber (diff (arr ! (i - 1)))) / 2
           * (distAlong (arr ! i) - distAlong (arr ! (i - 1)))"
proof -
  from assms obtain j where j: "i = Suc j" by (cases i) auto
  with assms have "j < length arr" by simp
  then have "integral (integralOf arr ! j) = foldl (\<lambda>acc j. integralStep arr j acc) 0 [0..<Suc j]"
    by (simp only: integralOf_nth) simp
  moreover have "integral (integralOf arr ! i)
       = integralStep arr i (foldl (\<lambda>acc j. integralStep arr j acc) 0 [0..<Suc j])"
    using assms j by (simp only: integralOf_nth) simp
  ultimately show ?thesis
    using j by (simp add: integralStep_def Let_def)
qed

lemma map_distAlong_integralOf: "map distAlong (integralOf arr) = map distAlong arr"
  by (rule nth_equalityI) (simp_all add: length_integralOf integralOf_nth)

lemma length_differencesOf: "length (differencesOf arr) = length arr"
  by (simp add: differencesOf_def)

lemma differencesOf_nth:
  "i < length arr \<Longrightarrow>
   differencesOf arr ! i = \<lparr>distAlong = distAlong (arr ! i), difference = diff (arr ! i)\<rparr>"
  by (simp add: differencesOf_def)

lemma map_distAlong_differencesOf: "map distAlong (differencesOf arr) = map distAlong arr"
  by (simp add: differencesOf_def)


subsection \<open>Invariants of the key table and the matched points\<close>

lemma update_set_cases:
  "(k', v') \<in> set (AList.update k v al) \<Longrightarrow> (k', v') = (k, v) \<or> (k', v') \<in> set al"
  by (induction al) (auto split: if_splits)

lemma insert2021_keyed:
  assumes "\<forall>(k, p) \<in> set T. keyOf p = k"
  shows "\<forall>(k, p) \<in> set (insert2021 T x). keyOf p = k"
  using assms by (auto simp: insert2021_def Let_def keyOf_def dest!: update_set_cases)

lemma insert2024_keyed:
  assumes "\<forall>(k, p) \<in> set T. keyOf p = k"
  shows "\<forall>(k, p) \<in> set (insert2024 T x). keyOf p = k"
proof (cases "map_of T (keyOf x)")
  case None
  with assms show ?thesis
    by (auto simp: insert2024_def Let_def keyOf_def dest!: update_set_cases)
next
  case (Some q)
  then have "(keyOf x, q) \<in> set T" by (rule map_of_SomeD)
  with assms have "keyOf q = keyOf x" by auto
  with assms Some show ?thesis
    by (auto simp: insert2024_def Let_def keyOf_def dest!: update_set_cases)
qed

lemma foldl_insert2021_keyed:
  "\<forall>(k, p) \<in> set T. keyOf p = k \<Longrightarrow> \<forall>(k, p) \<in> set (foldl insert2021 T P). keyOf p = k"
proof (induction P arbitrary: T)
  case Nil
  then show ?case by simp
next
  case (Cons x xs)
  from Cons.prems have "\<forall>(k, p) \<in> set (insert2021 T x). keyOf p = k"
    by (rule insert2021_keyed)
  then have "\<forall>(k, p) \<in> set (foldl insert2021 (insert2021 T x) xs). keyOf p = k"
    by (rule Cons.IH)
  then show ?case by simp
qed

lemma foldl_insert2024_keyed:
  "\<forall>(k, p) \<in> set T. keyOf p = k \<Longrightarrow> \<forall>(k, p) \<in> set (foldl insert2024 T Q). keyOf p = k"
proof (induction Q arbitrary: T)
  case Nil
  then show ?case by simp
next
  case (Cons x xs)
  from Cons.prems have "\<forall>(k, p) \<in> set (insert2024 T x). keyOf p = k"
    by (rule insert2024_keyed)
  then have "\<forall>(k, p) \<in> set (foldl insert2024 (insert2024 T x) xs). keyOf p = k"
    by (rule Cons.IH)
  then show ?case by simp
qed

lemma matchedPointsOf_keyed: "(k, p) \<in> set (matchedPointsOf P Q) \<Longrightarrow> keyOf p = k"
proof -
  have "\<forall>(k, p) \<in> set (matchedPointsOf P Q). keyOf p = k"
    unfolding matchedPointsOf_def table2021_def
    by (intro foldl_insert2024_keyed foldl_insert2021_keyed) simp
  then show "(k, p) \<in> set (matchedPointsOf P Q) \<Longrightarrow> keyOf p = k" by auto
qed

lemma foldl_insert2021_distinct:
  "distinct (map fst T) \<Longrightarrow> distinct (map fst (foldl insert2021 T P))"
  by (induction P arbitrary: T) (simp_all add: insert2021_def Let_def distinct_update)

lemma foldl_insert2024_distinct:
  "distinct (map fst T) \<Longrightarrow> distinct (map fst (foldl insert2024 T Q))"
  by (induction Q arbitrary: T)
    (simp_all add: insert2024_def Let_def distinct_update split: option.splits)

lemma matchedPointsOf_distinct: "distinct (map fst (matchedPointsOf P Q))"
  unfolding matchedPointsOf_def table2021_def
  by (intro foldl_insert2024_distinct foldl_insert2021_distinct) simp

lemma matchedPointsOf_mem:
  "(k, p) \<in> set (matchedPointsOf P Q) \<longleftrightarrow> map_of (matchedPointsOf P Q) k = Some p"
  using matchedPointsOf_distinct [of P Q] by simp

lemma lastWithKey_None: "lastWithKey k P = None \<longleftrightarrow> withKey k P = []"
  by (simp add: lastWithKey_def split: list.splits)

lemma lastWithKey_Some:
  "lastWithKey k P = Some a \<longleftrightarrow> withKey k P \<noteq> [] \<and> a = last (withKey k P)"
  by (auto simp: lastWithKey_def split: list.splits)

lemma lastWithKey_in: "lastWithKey k P = Some a \<Longrightarrow> a \<in> set P \<and> keyOf a = k"
proof -
  assume "lastWithKey k P = Some a"
  then have "withKey k P \<noteq> []" "a = last (withKey k P)" by (simp_all add: lastWithKey_Some)
  then have "a \<in> set (withKey k P)" by simp
  then show ?thesis by (simp add: withKey_def)
qed

lemma lastWithKey_defined: "k \<in> keyOf ` set P \<longleftrightarrow> (\<exists>a. lastWithKey k P = Some a)"
proof -
  have "k \<in> keyOf ` set P \<longleftrightarrow> withKey k P \<noteq> []"
    by (auto simp: withKey_def filter_empty_conv)
  then show ?thesis by (simp add: lastWithKey_Some)
qed

lemma matchedPointsOf_lookup:
  "map_of (matchedPointsOf P Q) k =
     (case withKey k Q of
        [] \<Rightarrow> map_option (\<lambda>a. \<lparr>distAlong = distAlong a, elev2021 = Some (elevation a),
                                 elev2024 = None, diff = None\<rparr>) (lastWithKey k P)
      | r # rs \<Rightarrow>
          Some (case lastWithKey k P of
                  Some a \<Rightarrow> \<lparr>distAlong = distAlong a, elev2021 = Some (elevation a),
                              elev2024 = Some (elevation (last (r # rs))),
                              diff = Some (elevation (last (r # rs)) - elevation a)\<rparr>
                | None \<Rightarrow> \<lparr>distAlong = distAlong r, elev2021 = None,
                            elev2024 = Some (elevation (last (r # rs))),
                            diff = (if rs = [] then None
                                    else Some (elevation (last (r # rs))))\<rparr>))"
  by (simp add: matchedPointsOf_def foldl_insert2024_lookup table2021_lookup toNumber_def
      split: list.splits option.splits)

lemma matched_both:
  assumes "lastWithKey k P = Some a" "lastWithKey k Q = Some b"
  shows "map_of (matchedPointsOf P Q) k =
     Some \<lparr>distAlong = distAlong a, elev2021 = Some (elevation a),
           elev2024 = Some (elevation b), diff = Some (elevation b - elevation a)\<rparr>"
proof -
  from assms(2) obtain r rs where "withKey k Q = r # rs" "b = last (r # rs)"
    by (cases "withKey k Q") (simp_all add: lastWithKey_def)
  with assms(1) show ?thesis by (simp add: matchedPointsOf_lookup)
qed

lemma matched_both_conv:
  assumes "map_of (matchedPointsOf P Q) k = Some p" "elev2021 p \<noteq> None" "elev2024 p \<noteq> None"
  shows "\<exists>a b. lastWithKey k P = Some a \<and> lastWithKey k Q = Some b"
  using assms
  by (auto simp: matchedPointsOf_lookup lastWithKey_Some split: list.splits option.splits)

lemma set_matchedPointsArrayOf:
  "set (matchedPointsArrayOf T) =
     {p \<in> snd ` set T. elev2021 p \<noteq> None \<and> elev2024 p \<noteq> None}"
  by (auto simp: matchedPointsArrayOf_def sortByDist_def)

lemma aligned_mem:
  "p \<in> set (matchedPointsArrayOf (matchedPointsOf P Q)) \<longleftrightarrow>
     (\<exists>a b. lastWithKey (keyOf p) P = Some a \<and> lastWithKey (keyOf p) Q = Some b \<and>
        p = \<lparr>distAlong = distAlong a, elev2021 = Some (elevation a),
              elev2024 = Some (elevation b), diff = Some (elevation b - elevation a)\<rparr>)"
  (is "?L \<longleftrightarrow> ?R")
proof
  assume ?L
  then obtain k where kp: "(k, p) \<in> set (matchedPointsOf P Q)"
    and both: "elev2021 p \<noteq> None" "elev2024 p \<noteq> None"
    by (auto simp: set_matchedPointsArrayOf)
  from kp have k: "keyOf p = k" by (rule matchedPointsOf_keyed)
  from kp have look: "map_of (matchedPointsOf P Q) k = Some p"
    by (simp add: matchedPointsOf_mem)
  from matched_both_conv [OF look both] obtain a b
    where ab: "lastWithKey k P = Some a" "lastWithKey k Q = Some b" by blast
  from matched_both [OF ab] look k ab show ?R by simp
next
  assume ?R
  then obtain a b where ab: "lastWithKey (keyOf p) P = Some a" "lastWithKey (keyOf p) Q = Some b"
    and p: "p = \<lparr>distAlong = distAlong a, elev2021 = Some (elevation a),
              elev2024 = Some (elevation b), diff = Some (elevation b - elevation a)\<rparr>"
    by blast
  from matched_both [OF ab] p have "map_of (matchedPointsOf P Q) (keyOf p) = Some p" by simp
  then have "(keyOf p, p) \<in> set (matchedPointsOf P Q)" by (simp add: matchedPointsOf_mem)
  moreover from p have "elev2021 p \<noteq> None \<and> elev2024 p \<noteq> None" by simp
  ultimately show ?L by (force simp: set_matchedPointsArrayOf)
qed

lemma aligned_keys_distinct:
  "distinct (map keyOf (matchedPointsArrayOf (matchedPointsOf P Q)))"
proof -
  let ?T = "matchedPointsOf P Q"
  let ?both = "\<lambda>p::matched_point. elev2021 p \<noteq> None \<and> elev2024 p \<noteq> None"
  have "map keyOf (filter ?both (map snd ?T)) = map fst (filter (\<lambda>kp. ?both (snd kp)) ?T)"
    using matchedPointsOf_keyed [of _ _ P Q]
    by (induction ?T) (auto simp: filter_map comp_def)
  moreover have "distinct (map fst (filter (\<lambda>kp. ?both (snd kp)) ?T))"
    using matchedPointsOf_distinct [of P Q] by (rule distinct_map_filter)
  ultimately have d: "distinct (map keyOf (filter ?both (map snd ?T)))" by simp
  have "mset (map keyOf (sort_key distAlong (filter ?both (map snd ?T))))
      = mset (map keyOf (filter ?both (map snd ?T)))"
    by simp
  then have "distinct (map keyOf (sort_key distAlong (filter ?both (map snd ?T))))
      \<longleftrightarrow> distinct (map keyOf (filter ?both (map snd ?T)))"
    by (rule mset_eq_imp_distinct_iff)
  with d show ?thesis by (simp add: matchedPointsArrayOf_def sortByDist_def)
qed

lemma aligned_sorted: "sorted (map distAlong (matchedPointsArrayOf T))"
  by (simp add: matchedPointsArrayOf_def sortByDist_def)

lemma aligned_strict:
  "sorted_wrt (<) (map distAlong (matchedPointsArrayOf (matchedPointsOf P Q)))"
proof -
  let ?arr = "matchedPointsArrayOf (matchedPointsOf P Q)"
  have "map keyOf ?arr = map toFixed3 (map distAlong ?arr)"
    by (simp add: keyOf_def comp_def)
  with aligned_keys_distinct [of P Q] have "distinct (map distAlong ?arr)"
    by (metis distinct_map)
  with aligned_sorted [of "matchedPointsOf P Q"] show ?thesis
    by (simp add: strict_sorted_iff)
qed

lemma lastWithKey_index:
  assumes "j < length P" "keyOf (P ! j) = k"
    and "\<forall>m. j < m \<and> m < length P \<longrightarrow> keyOf (P ! m) \<noteq> k"
  shows "lastWithKey k P = Some (P ! j)"
proof -
  have split: "P = take j P @ P ! j # drop (Suc j) P"
    using assms(1) by (rule id_take_nth_drop)
  have "keyOf r \<noteq> k" if "r \<in> set (drop (Suc j) P)" for r
  proof -
    from that obtain m where "m < length (drop (Suc j) P)" "r = drop (Suc j) P ! m"
      by (auto simp: in_set_conv_nth)
    then have "r = P ! (Suc j + m)" "Suc j + m < length P" by auto
    with assms(3) show ?thesis by simp
  qed
  then have "withKey k (drop (Suc j) P) = []"
    by (auto simp: withKey_def filter_empty_conv)
  then have "withKey k (take j P @ P ! j # drop (Suc j) P) = withKey k (take j P) @ [P ! j]"
    using assms(2) by (simp add: withKey_def)
  with split have "withKey k P = withKey k (take j P) @ [P ! j]" by simp
  then show ?thesis by (simp add: lastWithKey_Some)
qed

lemma table2021_distinct: "distinct (map fst (table2021 P))"
  unfolding table2021_def by (rule foldl_insert2021_distinct) simp

lemma insert2021_lookup_same:
  "map_of (insert2021 T row) (keyOf row) =
     Some \<lparr>distAlong = distAlong row, elev2021 = Some (elevation row),
           elev2024 = None, diff = None\<rparr>"
  by (simp add: insert2021_def Let_def update_conv' keyOf_def)

lemma keyOf_differencesOf: "map keyOf (differencesOf arr) = map keyOf arr"
  by (simp add: differencesOf_def keyOf_def)

lemma aligned_key_set:
  "keyOf ` set (matchedPointsArrayOf (matchedPointsOf P Q)) = keyOf ` set P \<inter> keyOf ` set Q"
proof (intro set_eqI iffI)
  fix k assume "k \<in> keyOf ` set (matchedPointsArrayOf (matchedPointsOf P Q))"
  then obtain p where "p \<in> set (matchedPointsArrayOf (matchedPointsOf P Q))" "k = keyOf p"
    by blast
  then show "k \<in> keyOf ` set P \<inter> keyOf ` set Q"
    by (auto simp: aligned_mem lastWithKey_defined)
next
  fix k assume "k \<in> keyOf ` set P \<inter> keyOf ` set Q"
  then obtain a b where ab: "lastWithKey k P = Some a" "lastWithKey k Q = Some b"
    by (auto simp: lastWithKey_defined)
  define p where "p = \<lparr>distAlong = distAlong a, elev2021 = Some (elevation a),
      elev2024 = Some (elevation b), diff = Some (elevation b - elevation a)\<rparr>"
  from lastWithKey_in [OF ab(1)] have k: "keyOf p = k" by (simp add: p_def keyOf_def)
  with ab have "p \<in> set (matchedPointsArrayOf (matchedPointsOf P Q))"
    unfolding aligned_mem p_def by auto
  with k show "k \<in> keyOf ` set (matchedPointsArrayOf (matchedPointsOf P Q))" by blast
qed

lemma aligned_empty_right: "matchedPointsArrayOf (matchedPointsOf P []) = []"
proof (cases "matchedPointsArrayOf (matchedPointsOf P [])")
  case Nil
  then show ?thesis .
next
  case (Cons p ps)
  then have "p \<in> set (matchedPointsArrayOf (matchedPointsOf P []))" by simp
  then show ?thesis by (simp add: aligned_mem lastWithKey_Nil)
qed

lemma aligned_empty_left: "matchedPointsArrayOf (matchedPointsOf [] Q) = []"
proof (cases "matchedPointsArrayOf (matchedPointsOf [] Q)")
  case Nil
  then show ?thesis .
next
  case (Cons p ps)
  then have "p \<in> set (matchedPointsArrayOf (matchedPointsOf [] Q))" by simp
  then show ?thesis by (simp add: aligned_mem lastWithKey_Nil)
qed

lemma profileOf_Nil: "rowsOf rawData s y = [] \<Longrightarrow> profileOf rawData s y = []"
  by (simp add: profileOf_def sortByDist_def)

lemma mset_profileOf: "mset (profileOf rawData s y) = mset (rowsOf rawData s y)"
  by (simp add: profileOf_def sortByDist_def)

lemma profileOf_perm:
  assumes "mset rawData' = mset rawData"
    and "inj_on distAlong (set (rowsOf rawData s y))"
  shows "profileOf rawData' s y = profileOf rawData s y"
proof -
  have m: "mset (rowsOf rawData' s y) = mset (rowsOf rawData s y)"
    using assms(1) by (simp add: rowsOf_def)
  then have "set (rowsOf rawData' s y) = set (rowsOf rawData s y)" by (rule mset_eq_setD)
  with assms(2) have inj: "inj_on distAlong (set (rowsOf rawData' s y))" by simp
  have perm: "mset (rowsOf rawData' s y) = mset (sort_key distAlong (rowsOf rawData s y))"
    using m by simp
  have ordered: "sorted (map distAlong (sort_key distAlong (rowsOf rawData s y)))"
    by (rule sorted_sort_key)
  have "sort_key distAlong (rowsOf rawData' s y) = sort_key distAlong (rowsOf rawData s y)"
    using perm inj ordered by (rule sort_key_inj_key_eq)
  then show ?thesis by (simp add: profileOf_def sortByDist_def)
qed

lemma exampleCollision_profiles:
  "byYearSite (processData exampleCollision) ''MID''
     = Some \<lparr>y2021 = exampleCollision2021, y2024 = exampleCollision2024\<rparr>"
  by code_simp

lemma index_between: "1 < m \<and> m < length [a, b, c] \<Longrightarrow> m = 2"
  by auto

section \<open>The claims\<close>

text \<open>
  C1. The integral series of a site is computed from its difference series, and for any
  array of matched points (any difference series) the integrator returns one entry per
  point with the trapezoidal recurrence: 0 at the first index, and at an index \<open>i > 0\<close>
  the previous integral plus the mean of the two differences times the distance step.
  The integrator has no failing branch, and a step of width 0 leaves the integral
  unchanged.
\<close>

theorem integral_trapezoidal_recurrence:
  "(differencesBySite (processData rawData) s = Some D \<longrightarrow>
      (\<exists>arr'. D = differencesOf arr' \<and>
              integralBySite (processData rawData) s = Some (integralOf arr')))
   \<and> length (integralOf arr) = length (differencesOf arr)
   \<and> (\<forall>i<length (differencesOf arr).
         integral (integralOf arr ! i) =
           (if i = 0 then 0
            else integral (integralOf arr ! (i - 1))
                 + (toNumber (difference (differencesOf arr ! i))
                    + toNumber (difference (differencesOf arr ! (i - 1)))) / 2
                   * (distAlong (differencesOf arr ! i)
                      - distAlong (differencesOf arr ! (i - 1)))))
   \<and> (\<forall>i<length (differencesOf arr).
         0 < i \<and> distAlong (differencesOf arr ! i)
                   - distAlong (differencesOf arr ! (i - 1)) = 0 \<longrightarrow>
         integral (integralOf arr ! i) = integral (integralOf arr ! (i - 1)))"
proof -
  have pipeline: "differencesBySite (processData rawData) s = Some D \<longrightarrow>
      (\<exists>arr'. D = differencesOf arr' \<and>
              integralBySite (processData rawData) s = Some (integralOf arr'))"
    by (auto simp: processData_differences processData_integral split: if_splits)
  have len: "length (integralOf arr) = length (differencesOf arr)"
    by (simp add: length_integralOf length_differencesOf)
  have step: "integral (integralOf arr ! i) =
           (if i = 0 then 0
            else integral (integralOf arr ! (i - 1))
                 + (toNumber (difference (differencesOf arr ! i))
                    + toNumber (difference (differencesOf arr ! (i - 1)))) / 2
                   * (distAlong (differencesOf arr ! i)
                      - distAlong (differencesOf arr ! (i - 1))))"
    if "i < length (differencesOf arr)" for i
  proof (cases "i = 0")
    case True
    with that show ?thesis
      by (auto simp: length_differencesOf intro: integralOf_first)
  next
    case False
    with that have "0 < i" "i < length arr" "i - 1 < length arr"
      by (simp_all add: length_differencesOf)
    then show ?thesis
      using False by (simp add: integralOf_rec differencesOf_nth)
  qed
  have zero: "integral (integralOf arr ! i) = integral (integralOf arr ! (i - 1))"
    if "i < length (differencesOf arr)" "0 < i"
      "distAlong (differencesOf arr ! i) - distAlong (differencesOf arr ! (i - 1)) = 0" for i
    using step [OF that(1)] that(2,3) by simp
  from pipeline len step zero show ?thesis by blast
qed

theorem integral_trapezoidal_recurrence_witness:
  "differencesBySite (processData exampleRows) ''AHA''
     = Some [\<lparr>distAlong = 0, difference = Some 1\<rparr>, \<lparr>distAlong = 1, difference = Some (- 1)\<rparr>]
   \<and> (\<exists>arr'. [\<lparr>distAlong = 0, difference = Some 1\<rparr>, \<lparr>distAlong = 1, difference = Some (- 1)\<rparr>]
                = differencesOf arr'
              \<and> integralBySite (processData exampleRows) ''AHA'' = Some (integralOf arr'))
   \<and> distAlong (differencesOf exampleZeroWidth ! 1)
       - distAlong (differencesOf exampleZeroWidth ! (1 - 1)) = 0
   \<and> integral (integralOf exampleZeroWidth ! 1) = integral (integralOf exampleZeroWidth ! (1 - 1))
   \<and> integral (integralOf exampleZeroWidth ! 1) = 0"
proof -
  have h: "differencesBySite (processData exampleRows) ''AHA''
     = Some [\<lparr>distAlong = 0, difference = Some 1\<rparr>, \<lparr>distAlong = 1, difference = Some (- 1)\<rparr>]"
    by code_simp
  have len: "(1::nat) < length (differencesOf exampleZeroWidth)"
    by code_simp
  have dx: "distAlong (differencesOf exampleZeroWidth ! 1)
       - distAlong (differencesOf exampleZeroWidth ! (1 - 1)) = 0"
    by code_simp
  have v: "integral (integralOf exampleZeroWidth ! 1) = 0"
    by code_simp
  note inst = integral_trapezoidal_recurrence [of exampleRows "''AHA''"
      "[\<lparr>distAlong = 0, difference = Some 1\<rparr>, \<lparr>distAlong = 1, difference = Some (- 1)\<rparr>]"
      exampleZeroWidth]
  from inst h have a: "\<exists>arr'. [\<lparr>distAlong = 0, difference = Some 1\<rparr>, \<lparr>distAlong = 1, difference = Some (- 1)\<rparr>]
                = differencesOf arr'
              \<and> integralBySite (processData exampleRows) ''AHA'' = Some (integralOf arr')"
    by blast
  from inst len dx
  have b: "integral (integralOf exampleZeroWidth ! 1) = integral (integralOf exampleZeroWidth ! (1 - 1))"
    by blast
  from h a dx b v show ?thesis by blast
qed

text \<open>
  C2. For every site, the difference series has exactly one entry per rounding key that
  occurs in both years' profiles (its keys are pairwise distinct and are exactly the
  common keys, so a point of one year only is left out), the difference of an entry is
  the elevation of the last later-year row minus that of the last earlier-year row at its
  key, and the series is ascending in distance.
\<close>

theorem difference_series_matches_both_years:
  assumes "s \<in> set (sites (processData rawData))"
  shows "\<exists>prof D. byYearSite (processData rawData) s = Some prof
           \<and> differencesBySite (processData rawData) s = Some D
           \<and> distinct (map keyOf D)
           \<and> set (map keyOf D) = keyOf ` set (y2021 prof) \<inter> keyOf ` set (y2024 prof)
           \<and> (\<forall>e \<in> set D. \<exists>a b.
                 lastWithKey (keyOf e) (y2021 prof) = Some a
                 \<and> lastWithKey (keyOf e) (y2024 prof) = Some b
                 \<and> difference e = Some (elevation b - elevation a))
           \<and> sorted (map distAlong D)"
proof -
  let ?P = "profileOf rawData s 2021" and ?Q = "profileOf rawData s 2024"
  let ?arr = "alignedOf rawData s"
  from assms have s: "s \<in> site ` set rawData" by (simp add: set_sites_processData)
  have arr: "?arr = matchedPointsArrayOf (matchedPointsOf ?P ?Q)" by (simp add: alignedOf_def)
  have 1: "byYearSite (processData rawData) s = Some \<lparr>y2021 = ?P, y2024 = ?Q\<rparr>"
    using s by (simp add: processData_byYearSite)
  have 2: "differencesBySite (processData rawData) s = Some (differencesOf ?arr)"
    using s by (simp add: processData_differences)
  have 3: "distinct (map keyOf (differencesOf ?arr))"
    by (simp add: keyOf_differencesOf arr aligned_keys_distinct)
  have 4: "set (map keyOf (differencesOf ?arr)) = keyOf ` set ?P \<inter> keyOf ` set ?Q"
    by (simp add: keyOf_differencesOf arr aligned_key_set)
  have 5: "\<exists>a b. lastWithKey (keyOf e) ?P = Some a \<and> lastWithKey (keyOf e) ?Q = Some b
       \<and> difference e = Some (elevation b - elevation a)"
    if "e \<in> set (differencesOf ?arr)" for e
  proof -
    from that obtain p where p: "p \<in> set ?arr"
      and e: "e = \<lparr>distAlong = distAlong p, difference = diff p\<rparr>"
      by (auto simp: differencesOf_def)
    from e have "keyOf e = keyOf p" by (simp add: keyOf_def)
    with p e show ?thesis unfolding arr aligned_mem by auto
  qed
  have 6: "sorted (map distAlong (differencesOf ?arr))"
    by (simp add: map_distAlong_differencesOf arr aligned_sorted)
  from 1 2 3 4 5 6 show ?thesis by (intro exI [of _ "\<lparr>y2021 = ?P, y2024 = ?Q\<rparr>"] exI [of _ "differencesOf ?arr"]) simp
qed

theorem difference_series_matches_both_years_witness:
  "''MID'' \<in> set (sites (processData exampleCollision))
   \<and> differencesBySite (processData exampleCollision) ''MID''
       = Some [\<lparr>distAlong = 1004 / 10000, difference = Some (- 6)\<rparr>]
   \<and> (\<exists>prof D. byYearSite (processData exampleCollision) ''MID'' = Some prof
           \<and> differencesBySite (processData exampleCollision) ''MID'' = Some D
           \<and> distinct (map keyOf D)
           \<and> set (map keyOf D) = keyOf ` set (y2021 prof) \<inter> keyOf ` set (y2024 prof)
           \<and> (\<forall>e \<in> set D. \<exists>a b.
                 lastWithKey (keyOf e) (y2021 prof) = Some a
                 \<and> lastWithKey (keyOf e) (y2024 prof) = Some b
                 \<and> difference e = Some (elevation b - elevation a))
           \<and> sorted (map distAlong D))"
proof -
  have h: "''MID'' \<in> set (sites (processData exampleCollision))"
    by code_simp
  have v: "differencesBySite (processData exampleCollision) ''MID''
       = Some [\<lparr>distAlong = 1004 / 10000, difference = Some (- 6)\<rparr>]"
    by code_simp
  from h v difference_series_matches_both_years [OF h] show ?thesis by blast
qed

text \<open>
  C3. When two rows of the earlier-year profile round to the same key and the second is
  the last row with that key, the table built by the first loop holds for that key the
  entry of the second row: writing a row replaces whatever the key held, the table keeps
  one entry per key, and no branch fails.
\<close>

theorem earlier_year_last_write_wins:
  assumes "i < j" "j < length data2021"
    and "keyOf (data2021 ! i) = keyOf (data2021 ! j)"
    and "\<forall>m. j < m \<and> m < length data2021 \<longrightarrow> keyOf (data2021 ! m) \<noteq> keyOf (data2021 ! j)"
  shows "map_of (table2021 data2021) (keyOf (data2021 ! i)) =
           Some \<lparr>distAlong = distAlong (data2021 ! j),
                 elev2021 = Some (elevation (data2021 ! j)),
                 elev2024 = None, diff = None\<rparr>
         \<and> distinct (map fst (table2021 data2021))
         \<and> map_of (insert2021 T (data2021 ! j)) (keyOf (data2021 ! i)) =
           Some \<lparr>distAlong = distAlong (data2021 ! j),
                 elev2021 = Some (elevation (data2021 ! j)),
                 elev2024 = None, diff = None\<rparr>"
proof -
  from lastWithKey_index [OF assms(2) refl assms(4)]
  have "lastWithKey (keyOf (data2021 ! i)) data2021 = Some (data2021 ! j)"
    using assms(3) by simp
  then show ?thesis
    using assms(3) by (simp add: table2021_lookup table2021_distinct insert2021_lookup_same)
qed

theorem earlier_year_last_write_wins_witness:
  "byYearSite (processData exampleCollision) ''MID''
     = Some \<lparr>y2021 = exampleCollision2021, y2024 = exampleCollision2024\<rparr>
   \<and> keyOf (exampleCollision2021 ! 0) = keyOf (exampleCollision2021 ! 1)
   \<and> exampleCollision2021 ! 1
       = \<lparr>distAlong = 1004 / 10000, site = ''MID'', year = 2021, elevation = 20\<rparr>
   \<and> map_of (table2021 exampleCollision2021) (keyOf (exampleCollision2021 ! 0))
       = Some \<lparr>distAlong = distAlong (exampleCollision2021 ! 1),
               elev2021 = Some (elevation (exampleCollision2021 ! 1)),
               elev2024 = None, diff = None\<rparr>
   \<and> table2021 exampleCollision2021
       = [(Fixed False 100,
           \<lparr>distAlong = 1004 / 10000, elev2021 = Some 20, elev2024 = None, diff = None\<rparr>),
          (Fixed False 1000,
           \<lparr>distAlong = 1, elev2021 = Some 5, elev2024 = None, diff = None\<rparr>)]"
proof -
  have h1: "(0::nat) < 1" by simp
  have h2: "1 < length exampleCollision2021" by code_simp
  have h3: "keyOf (exampleCollision2021 ! 0) = keyOf (exampleCollision2021 ! 1)" by code_simp
  have k: "keyOf (exampleCollision2021 ! 2) \<noteq> keyOf (exampleCollision2021 ! 1)" by code_simp
  have h4: "\<forall>m. 1 < m \<and> m < length exampleCollision2021 \<longrightarrow>
      keyOf (exampleCollision2021 ! m) \<noteq> keyOf (exampleCollision2021 ! 1)"
  proof (intro allI impI)
    fix m assume "1 < m \<and> m < length exampleCollision2021"
    then have "m = 2" unfolding exampleCollision2021_def by (rule index_between)
    with k show "keyOf (exampleCollision2021 ! m) \<noteq> keyOf (exampleCollision2021 ! 1)" by simp
  qed
  have r: "exampleCollision2021 ! 1
       = \<lparr>distAlong = 1004 / 10000, site = ''MID'', year = 2021, elevation = 20\<rparr>"
    by code_simp
  have t: "table2021 exampleCollision2021
       = [(Fixed False 100,
           \<lparr>distAlong = 1004 / 10000, elev2021 = Some 20, elev2024 = None, diff = None\<rparr>),
          (Fixed False 1000,
           \<lparr>distAlong = 1, elev2021 = Some 5, elev2024 = None, diff = None\<rparr>)]"
    by code_simp
  from earlier_year_last_write_wins [OF h1 h2 h3 h4, of "[]"] exampleCollision_profiles h3 r t
  show ?thesis by blast
qed

text \<open>
  C4. For a site with no rows of one of the two years, that year's profile is empty, the
  other year's profile holds that year's rows sorted by distance, and the difference and
  integral series are both empty.
\<close>

theorem single_year_site:
  assumes "s \<in> set (sites (processData rawData))"
  shows "(rowsOf rawData s 2024 = [] \<longrightarrow>
            (\<exists>prof. byYearSite (processData rawData) s = Some prof
               \<and> y2024 prof = []
               \<and> mset (y2021 prof) = mset (rowsOf rawData s 2021)
               \<and> sorted (map distAlong (y2021 prof)))
            \<and> differencesBySite (processData rawData) s = Some []
            \<and> integralBySite (processData rawData) s = Some [])
       \<and> (rowsOf rawData s 2021 = [] \<longrightarrow>
            (\<exists>prof. byYearSite (processData rawData) s = Some prof
               \<and> y2021 prof = []
               \<and> mset (y2024 prof) = mset (rowsOf rawData s 2024)
               \<and> sorted (map distAlong (y2024 prof)))
            \<and> differencesBySite (processData rawData) s = Some []
            \<and> integralBySite (processData rawData) s = Some [])"
proof -
  from assms have s: "s \<in> site ` set rawData" by (simp add: set_sites_processData)
  have sorted: "sorted (map distAlong (profileOf rawData s y))" for y
    by (simp add: profileOf_def sortByDist_def)
  have by_year: "byYearSite (processData rawData) s
      = Some \<lparr>y2021 = profileOf rawData s 2021, y2024 = profileOf rawData s 2024\<rparr>"
    using s by (simp add: processData_byYearSite)
  have empty: "differencesBySite (processData rawData) s = Some []
      \<and> integralBySite (processData rawData) s = Some []"
    if "alignedOf rawData s = []"
    using s that
    by (simp add: processData_differences processData_integral differencesOf_def integralOf_def)
  have late: "(\<exists>prof. byYearSite (processData rawData) s = Some prof
               \<and> y2024 prof = []
               \<and> mset (y2021 prof) = mset (rowsOf rawData s 2021)
               \<and> sorted (map distAlong (y2021 prof)))
            \<and> differencesBySite (processData rawData) s = Some []
            \<and> integralBySite (processData rawData) s = Some []"
    if none: "rowsOf rawData s 2024 = []"
  proof -
    from none have "alignedOf rawData s = []"
      by (simp add: alignedOf_def profileOf_Nil aligned_empty_right)
    from empty [OF this] by_year none sorted [of 2021] show ?thesis
      by (simp add: profileOf_Nil mset_profileOf)
  qed
  have early: "(\<exists>prof. byYearSite (processData rawData) s = Some prof
               \<and> y2021 prof = []
               \<and> mset (y2024 prof) = mset (rowsOf rawData s 2024)
               \<and> sorted (map distAlong (y2024 prof)))
            \<and> differencesBySite (processData rawData) s = Some []
            \<and> integralBySite (processData rawData) s = Some []"
    if none: "rowsOf rawData s 2021 = []"
  proof -
    from none have "alignedOf rawData s = []"
      by (simp add: alignedOf_def profileOf_Nil aligned_empty_left)
    from empty [OF this] by_year none sorted [of 2024] show ?thesis
      by (simp add: profileOf_Nil mset_profileOf)
  qed
  from late early show ?thesis by blast
qed

theorem single_year_site_witness:
  "''FAL'' \<in> set (sites (processData exampleOneYear))
   \<and> rowsOf exampleOneYear ''FAL'' 2024 = []
   \<and> byYearSite (processData exampleOneYear) ''FAL''
       = Some \<lparr>y2021 = [\<lparr>distAlong = 0, site = ''FAL'', year = 2021, elevation = 2\<rparr>,
                        \<lparr>distAlong = 1, site = ''FAL'', year = 2021, elevation = 3\<rparr>],
               y2024 = []\<rparr>
   \<and> differencesBySite (processData exampleOneYear) ''FAL'' = Some []
   \<and> integralBySite (processData exampleOneYear) ''FAL'' = Some []
   \<and> ''LGR'' \<in> set (sites (processData exampleOneYear))
   \<and> rowsOf exampleOneYear ''LGR'' 2021 = []
   \<and> byYearSite (processData exampleOneYear) ''LGR''
       = Some \<lparr>y2021 = [],
               y2024 = [\<lparr>distAlong = 0, site = ''LGR'', year = 2024, elevation = 1\<rparr>]\<rparr>
   \<and> differencesBySite (processData exampleOneYear) ''LGR'' = Some []
   \<and> integralBySite (processData exampleOneYear) ''LGR'' = Some []"
proof -
  have f: "''FAL'' \<in> set (sites (processData exampleOneYear))" by code_simp
  have f24: "rowsOf exampleOneYear ''FAL'' 2024 = []" by code_simp
  have fp: "byYearSite (processData exampleOneYear) ''FAL''
       = Some \<lparr>y2021 = [\<lparr>distAlong = 0, site = ''FAL'', year = 2021, elevation = 2\<rparr>,
                        \<lparr>distAlong = 1, site = ''FAL'', year = 2021, elevation = 3\<rparr>],
               y2024 = []\<rparr>"
    by code_simp
  have l: "''LGR'' \<in> set (sites (processData exampleOneYear))" by code_simp
  have l21: "rowsOf exampleOneYear ''LGR'' 2021 = []" by code_simp
  have lp: "byYearSite (processData exampleOneYear) ''LGR''
       = Some \<lparr>y2021 = [],
               y2024 = [\<lparr>distAlong = 0, site = ''LGR'', year = 2024, elevation = 1\<rparr>]\<rparr>"
    by code_simp
  from single_year_site [OF f] f24
  have "differencesBySite (processData exampleOneYear) ''FAL'' = Some []
      \<and> integralBySite (processData exampleOneYear) ''FAL'' = Some []"
    by blast
  moreover from single_year_site [OF l] l21
  have "differencesBySite (processData exampleOneYear) ''LGR'' = Some []
      \<and> integralBySite (processData exampleOneYear) ''LGR'' = Some []"
    by blast
  ultimately show ?thesis using f f24 fp l l21 lp by blast
qed

text \<open>
  C5. For every site of every input, the integral series has the length of the difference
  series and the same distances at every index, and when it is not empty its first
  integral is 0.
\<close>

theorem integral_series_shape:
  assumes "s \<in> set (sites (processData rawData))"
  shows "\<exists>D I. differencesBySite (processData rawData) s = Some D
           \<and> integralBySite (processData rawData) s = Some I
           \<and> length I = length D
           \<and> map distAlong I = map distAlong D
           \<and> (I \<noteq> [] \<longrightarrow> integral (I ! 0) = 0)"
proof -
  from assms have "s \<in> site ` set rawData" by (simp add: set_sites_processData)
  then have "differencesBySite (processData rawData) s = Some (differencesOf (alignedOf rawData s))"
    and "integralBySite (processData rawData) s = Some (integralOf (alignedOf rawData s))"
    by (simp_all add: processData_differences processData_integral)
  moreover have "length (integralOf (alignedOf rawData s)) = length (differencesOf (alignedOf rawData s))"
    by (simp add: length_integralOf length_differencesOf)
  moreover have "map distAlong (integralOf (alignedOf rawData s))
      = map distAlong (differencesOf (alignedOf rawData s))"
    by (simp add: map_distAlong_integralOf map_distAlong_differencesOf)
  moreover have "integralOf (alignedOf rawData s) \<noteq> [] \<longrightarrow>
      integral (integralOf (alignedOf rawData s) ! 0) = 0"
  proof
    assume "integralOf (alignedOf rawData s) \<noteq> []"
    then have "length (integralOf (alignedOf rawData s)) \<noteq> 0" by simp
    then have "alignedOf rawData s \<noteq> []" by (simp add: length_integralOf)
    then show "integral (integralOf (alignedOf rawData s) ! 0) = 0" by (rule integralOf_first)
  qed
  ultimately show ?thesis by blast
qed

theorem integral_series_shape_witness:
  "''AHA'' \<in> set (sites (processData exampleRows))
   \<and> (\<exists>D I. differencesBySite (processData exampleRows) ''AHA'' = Some D
           \<and> integralBySite (processData exampleRows) ''AHA'' = Some I
           \<and> length I = length D
           \<and> map distAlong I = map distAlong D
           \<and> (I \<noteq> [] \<longrightarrow> integral (I ! 0) = 0))
   \<and> integralBySite (processData exampleRows) ''AHA''
       = Some [\<lparr>distAlong = 0, integral = 0\<rparr>, \<lparr>distAlong = 1, integral = 0\<rparr>]"
proof -
  have h: "''AHA'' \<in> set (sites (processData exampleRows))"
    by code_simp
  have v: "integralBySite (processData exampleRows) ''AHA''
       = Some [\<lparr>distAlong = 0, integral = 0\<rparr>, \<lparr>distAlong = 1, integral = 0\<rparr>]"
    by code_simp
  from h v integral_series_shape [OF h] show ?thesis by blast
qed



text \<open>
  C7 (amended). When any two rows with the same site, the same survey year (2021 or 2024)
  and the same distance are the same row, every permutation of the input yields the same
  profiles, difference series and integral series. Without that condition the property
  fails: the sort is stable and the key table keeps the last row written, so two rows of
  one site and year at the same distance keep their input order in the profile and the
  later of them decides the difference, as the example after the witness shows.
\<close>

theorem permutation_invariance_without_ties:
  assumes "mset rawData' = mset rawData"
    and "\<forall>r1 \<in> set rawData. \<forall>r2 \<in> set rawData.
           site r1 = site r2 \<and> year r1 = year r2 \<and> (year r1 = 2021 \<or> year r1 = 2024)
           \<and> distAlong r1 = distAlong r2 \<longrightarrow> r1 = r2"
  shows "byYearSite (processData rawData') = byYearSite (processData rawData)
       \<and> differencesBySite (processData rawData') = differencesBySite (processData rawData)
       \<and> integralBySite (processData rawData') = integralBySite (processData rawData)"
proof -
  from assms(1) have sets: "set rawData' = set rawData" by (rule mset_eq_setD)
  have inj: "inj_on distAlong (set (rowsOf rawData s y))" if y: "y = 2021 \<or> y = 2024" for s y
  proof (rule inj_onI)
    fix r1 r2
    assume "r1 \<in> set (rowsOf rawData s y)" "r2 \<in> set (rowsOf rawData s y)"
      and d: "distAlong r1 = distAlong r2"
    then have mem: "r1 \<in> set rawData" "r2 \<in> set rawData"
      and same: "site r1 = site r2" "year r1 = year r2" "year r1 = y"
      by (simp_all add: rowsOf_def)
    from assms(2) mem have "site r1 = site r2 \<and> year r1 = year r2
        \<and> (year r1 = 2021 \<or> year r1 = 2024) \<and> distAlong r1 = distAlong r2 \<longrightarrow> r1 = r2"
      by blast
    with same d y show "r1 = r2" by blast
  qed
  have prof: "profileOf rawData' s 2021 = profileOf rawData s 2021"
    "profileOf rawData' s 2024 = profileOf rawData s 2024" for s
    by (rule profileOf_perm [OF assms(1) inj], simp)+
  then have al: "alignedOf rawData' s = alignedOf rawData s" for s
    by (simp add: alignedOf_def)
  have "byYearSite (processData rawData') s = byYearSite (processData rawData) s" for s
    by (simp add: processData_byYearSite sets prof)
  moreover have "differencesBySite (processData rawData') s
      = differencesBySite (processData rawData) s" for s
    by (simp add: processData_differences sets al)
  moreover have "integralBySite (processData rawData') s
      = integralBySite (processData rawData) s" for s
    by (simp add: processData_integral sets al)
  ultimately show ?thesis by (intro conjI ext)
qed

theorem permutation_invariance_without_ties_witness:
  "mset (rev exampleRows) = mset exampleRows
   \<and> byYearSite (processData (rev exampleRows)) = byYearSite (processData exampleRows)
   \<and> differencesBySite (processData (rev exampleRows))
       = differencesBySite (processData exampleRows)
   \<and> integralBySite (processData (rev exampleRows)) = integralBySite (processData exampleRows)
   \<and> differencesBySite (processData (rev exampleRows)) ''AHA''
       = Some [\<lparr>distAlong = 0, difference = Some 1\<rparr>, \<lparr>distAlong = 1, difference = Some (- 1)\<rparr>]"
proof -
  have h1: "mset (rev exampleRows) = mset exampleRows" by simp
  have h2: "\<forall>r1 \<in> set exampleRows. \<forall>r2 \<in> set exampleRows.
           site r1 = site r2 \<and> year r1 = year r2 \<and> (year r1 = 2021 \<or> year r1 = 2024)
           \<and> distAlong r1 = distAlong r2 \<longrightarrow> r1 = r2"
    by (simp add: exampleRows_def)
  have v: "differencesBySite (processData (rev exampleRows)) ''AHA''
       = Some [\<lparr>distAlong = 0, difference = Some 1\<rparr>, \<lparr>distAlong = 1, difference = Some (- 1)\<rparr>]"
    by code_simp
  from h1 v permutation_invariance_without_ties [OF h1 h2] show ?thesis by blast
qed

theorem permutation_changes_tied_records:
  "mset exampleTieShuffled = mset exampleTie
   \<and> byYearSite (processData exampleTie) ''MCC''
       = Some \<lparr>y2021 = [\<lparr>distAlong = 0, site = ''MCC'', year = 2021, elevation = 10\<rparr>,
                        \<lparr>distAlong = 0, site = ''MCC'', year = 2021, elevation = 20\<rparr>],
               y2024 = [\<lparr>distAlong = 0, site = ''MCC'', year = 2024, elevation = 5\<rparr>]\<rparr>
   \<and> byYearSite (processData exampleTieShuffled) ''MCC''
       = Some \<lparr>y2021 = [\<lparr>distAlong = 0, site = ''MCC'', year = 2021, elevation = 20\<rparr>,
                        \<lparr>distAlong = 0, site = ''MCC'', year = 2021, elevation = 10\<rparr>],
               y2024 = [\<lparr>distAlong = 0, site = ''MCC'', year = 2024, elevation = 5\<rparr>]\<rparr>
   \<and> differencesBySite (processData exampleTie) ''MCC''
       = Some [\<lparr>distAlong = 0, difference = Some (- 15)\<rparr>]
   \<and> differencesBySite (processData exampleTieShuffled) ''MCC''
       = Some [\<lparr>distAlong = 0, difference = Some (- 5)\<rparr>]
   \<and> byYearSite (processData exampleTieShuffled) \<noteq> byYearSite (processData exampleTie)
   \<and> differencesBySite (processData exampleTieShuffled)
       \<noteq> differencesBySite (processData exampleTie)"
proof -
  have p: "mset exampleTieShuffled = mset exampleTie"
    by (simp add: exampleTieShuffled_def exampleTie_def)
  have a: "byYearSite (processData exampleTie) ''MCC''
       = Some \<lparr>y2021 = [\<lparr>distAlong = 0, site = ''MCC'', year = 2021, elevation = 10\<rparr>,
                        \<lparr>distAlong = 0, site = ''MCC'', year = 2021, elevation = 20\<rparr>],
               y2024 = [\<lparr>distAlong = 0, site = ''MCC'', year = 2024, elevation = 5\<rparr>]\<rparr>"
    by code_simp
  have b: "byYearSite (processData exampleTieShuffled) ''MCC''
       = Some \<lparr>y2021 = [\<lparr>distAlong = 0, site = ''MCC'', year = 2021, elevation = 20\<rparr>,
                        \<lparr>distAlong = 0, site = ''MCC'', year = 2021, elevation = 10\<rparr>],
               y2024 = [\<lparr>distAlong = 0, site = ''MCC'', year = 2024, elevation = 5\<rparr>]\<rparr>"
    by code_simp
  have c: "differencesBySite (processData exampleTie) ''MCC''
       = Some [\<lparr>distAlong = 0, difference = Some (- 15)\<rparr>]"
    by code_simp
  have d: "differencesBySite (processData exampleTieShuffled) ''MCC''
       = Some [\<lparr>distAlong = 0, difference = Some (- 5)\<rparr>]"
    by code_simp
  have e: "byYearSite (processData exampleTieShuffled) \<noteq> byYearSite (processData exampleTie)"
  proof
    assume "byYearSite (processData exampleTieShuffled) = byYearSite (processData exampleTie)"
    then have "byYearSite (processData exampleTieShuffled) ''MCC''
        = byYearSite (processData exampleTie) ''MCC''" by simp
    with a b show False by simp
  qed
  have f: "differencesBySite (processData exampleTieShuffled)
       \<noteq> differencesBySite (processData exampleTie)"
  proof
    assume "differencesBySite (processData exampleTieShuffled)
        = differencesBySite (processData exampleTie)"
    then have "differencesBySite (processData exampleTieShuffled) ''MCC''
        = differencesBySite (processData exampleTie) ''MCC''" by simp
    with c d show False by simp
  qed
  from p a b c d e f show ?thesis by blast
qed

text \<open>
  C8. For a key that occurs in both years' profiles, the matched point stored under it
  carries the distance of the last earlier-year row with that key (not that of a
  later-year row) and both elevations, and its \<open>diff\<close> is present exactly when both
  elevations are.
\<close>

theorem matched_point_canonical_distance:
  assumes "lastWithKey k data2021 = Some a" "lastWithKey k data2024 = Some b"
  shows "\<exists>p. map_of (matchedPointsOf data2021 data2024) k = Some p
           \<and> distAlong p = distAlong a
           \<and> elev2021 p = Some (elevation a)
           \<and> elev2024 p = Some (elevation b)
           \<and> (diff p \<noteq> None \<longleftrightarrow> elev2021 p \<noteq> None \<and> elev2024 p \<noteq> None)"
  using matched_both [OF assms] by simp

theorem matched_point_canonical_distance_witness:
  "lastWithKey (Fixed False 100) exampleCollision2021
     = Some \<lparr>distAlong = 1004 / 10000, site = ''MID'', year = 2021, elevation = 20\<rparr>
   \<and> lastWithKey (Fixed False 100) exampleCollision2024
     = Some \<lparr>distAlong = 1003 / 10000, site = ''MID'', year = 2024, elevation = 14\<rparr>
   \<and> map_of (matchedPointsOf exampleCollision2021 exampleCollision2024) (Fixed False 100)
     = Some \<lparr>distAlong = 1004 / 10000, elev2021 = Some 20, elev2024 = Some 14,
             diff = Some (- 6)\<rparr>
   \<and> (\<exists>p. map_of (matchedPointsOf exampleCollision2021 exampleCollision2024) (Fixed False 100)
             = Some p
           \<and> distAlong p
              = distAlong \<lparr>distAlong = 1004 / 10000, site = ''MID'', year = 2021, elevation = 20\<rparr>
           \<and> elev2021 p
              = Some (elevation \<lparr>distAlong = 1004 / 10000, site = ''MID'', year = 2021,
                                elevation = 20\<rparr>)
           \<and> elev2024 p
              = Some (elevation \<lparr>distAlong = 1003 / 10000, site = ''MID'', year = 2024,
                                elevation = 14\<rparr>)
           \<and> (diff p \<noteq> None \<longleftrightarrow> elev2021 p \<noteq> None \<and> elev2024 p \<noteq> None))"
proof -
  have a: "lastWithKey (Fixed False 100) exampleCollision2021
     = Some \<lparr>distAlong = 1004 / 10000, site = ''MID'', year = 2021, elevation = 20\<rparr>"
    by code_simp
  have b: "lastWithKey (Fixed False 100) exampleCollision2024
     = Some \<lparr>distAlong = 1003 / 10000, site = ''MID'', year = 2024, elevation = 14\<rparr>"
    by code_simp
  have v: "map_of (matchedPointsOf exampleCollision2021 exampleCollision2024) (Fixed False 100)
     = Some \<lparr>distAlong = 1004 / 10000, elev2021 = Some 20, elev2024 = Some 14,
             diff = Some (- 6)\<rparr>"
    by code_simp
  from a b v matched_point_canonical_distance [OF a b] show ?thesis by blast
qed

text \<open>
  C9. When two rows of the later-year profile round to the same key and the second is the
  last row with that key, the matched point of that key carries the second row's
  elevation as later-year elevation, and whenever it carries an earlier-year elevation its
  \<open>diff\<close> is the second row's elevation minus that stored earlier-year elevation.
\<close>

theorem later_year_last_write_wins:
  assumes "i < j" "j < length data2024"
    and "keyOf (data2024 ! i) = keyOf (data2024 ! j)"
    and "\<forall>m. j < m \<and> m < length data2024 \<longrightarrow> keyOf (data2024 ! m) \<noteq> keyOf (data2024 ! j)"
  shows "\<exists>p. map_of (matchedPointsOf data2021 data2024) (keyOf (data2024 ! i)) = Some p
           \<and> elev2024 p = Some (elevation (data2024 ! j))
           \<and> (\<forall>e. elev2021 p = Some e \<longrightarrow> diff p = Some (elevation (data2024 ! j) - e))"
proof -
  let ?k = "keyOf (data2024 ! i)"
  from lastWithKey_index [OF assms(2) refl assms(4)] assms(3)
  have "lastWithKey ?k data2024 = Some (data2024 ! j)" by simp
  then obtain r rs where w: "withKey ?k data2024 = r # rs" "last (r # rs) = data2024 ! j"
    by (cases "withKey ?k data2024") (simp_all add: lastWithKey_def)
  show ?thesis
  proof (cases "lastWithKey ?k data2021")
    case None
    with w show ?thesis by (simp add: matchedPointsOf_lookup)
  next
    case (Some a)
    with w show ?thesis by (simp add: matchedPointsOf_lookup)
  qed
qed

theorem later_year_last_write_wins_witness:
  "keyOf (exampleCollision2024 ! 0) = keyOf (exampleCollision2024 ! 1)
   \<and> exampleCollision2024 ! 1
       = \<lparr>distAlong = 1003 / 10000, site = ''MID'', year = 2024, elevation = 14\<rparr>
   \<and> map_of (matchedPointsOf exampleCollision2021 exampleCollision2024)
         (keyOf (exampleCollision2024 ! 0))
       = Some \<lparr>distAlong = 1004 / 10000, elev2021 = Some 20, elev2024 = Some 14,
               diff = Some (- 6)\<rparr>
   \<and> (\<exists>p. map_of (matchedPointsOf exampleCollision2021 exampleCollision2024)
              (keyOf (exampleCollision2024 ! 0)) = Some p
           \<and> elev2024 p = Some (elevation (exampleCollision2024 ! 1))
           \<and> (\<forall>e. elev2021 p = Some e \<longrightarrow>
                 diff p = Some (elevation (exampleCollision2024 ! 1) - e)))"
proof -
  have h1: "(0::nat) < 1" by simp
  have h2: "1 < length exampleCollision2024" by code_simp
  have h3: "keyOf (exampleCollision2024 ! 0) = keyOf (exampleCollision2024 ! 1)" by code_simp
  have k: "keyOf (exampleCollision2024 ! 2) \<noteq> keyOf (exampleCollision2024 ! 1)" by code_simp
  have h4: "\<forall>m. 1 < m \<and> m < length exampleCollision2024 \<longrightarrow>
      keyOf (exampleCollision2024 ! m) \<noteq> keyOf (exampleCollision2024 ! 1)"
  proof (intro allI impI)
    fix m assume "1 < m \<and> m < length exampleCollision2024"
    then have "m = 2" unfolding exampleCollision2024_def by (rule index_between)
    with k show "keyOf (exampleCollision2024 ! m) \<noteq> keyOf (exampleCollision2024 ! 1)" by simp
  qed
  have r: "exampleCollision2024 ! 1
       = \<lparr>distAlong = 1003 / 10000, site = ''MID'', year = 2024, elevation = 14\<rparr>"
    by code_simp
  have v: "map_of (matchedPointsOf exampleCollision2021 exampleCollision2024)
         (keyOf (exampleCollision2024 ! 0))
       = Some \<lparr>distAlong = 1004 / 10000, elev2021 = Some 20, elev2024 = Some 14,
               diff = Some (- 6)\<rparr>"
    by code_simp
  from later_year_last_write_wins [OF h1 h2 h3 h4, of exampleCollision2021] h3 r v
  show ?thesis by blast
qed

text \<open>
  C10. For every input and site, the distances of the difference series and of the
  integral series are strictly increasing, so every step the integrator consumes has a
  positive width.
\<close>

theorem distances_strictly_increasing:
  assumes "s \<in> set (sites (processData rawData))"
  shows "\<exists>D I. differencesBySite (processData rawData) s = Some D
           \<and> integralBySite (processData rawData) s = Some I
           \<and> sorted_wrt (<) (map distAlong D)
           \<and> sorted_wrt (<) (map distAlong I)
           \<and> (\<forall>i. 0 < i \<and> i < length D \<longrightarrow> 0 < distAlong (D ! i) - distAlong (D ! (i - 1)))"
proof -
  let ?arr = "alignedOf rawData s"
  from assms have s: "s \<in> site ` set rawData" by (simp add: set_sites_processData)
  have 1: "differencesBySite (processData rawData) s = Some (differencesOf ?arr)"
    and 2: "integralBySite (processData rawData) s = Some (integralOf ?arr)"
    using s by (simp_all add: processData_differences processData_integral)
  have strict: "sorted_wrt (<) (map distAlong ?arr)"
    by (simp add: alignedOf_def aligned_strict)
  then have 3: "sorted_wrt (<) (map distAlong (differencesOf ?arr))"
    and 4: "sorted_wrt (<) (map distAlong (integralOf ?arr))"
    by (simp_all add: map_distAlong_differencesOf map_distAlong_integralOf)
  have 5: "0 < distAlong (differencesOf ?arr ! i) - distAlong (differencesOf ?arr ! (i - 1))"
    if "0 < i" "i < length (differencesOf ?arr)" for i
  proof -
    from that have "i - 1 < i" "i < length (map distAlong (differencesOf ?arr))" by simp_all
    with 3 have "map distAlong (differencesOf ?arr) ! (i - 1) < map distAlong (differencesOf ?arr) ! i"
      by (rule sorted_wrt_nth_less)
    with that show ?thesis by simp
  qed
  from 1 2 3 4 5 show ?thesis by blast
qed

theorem distances_strictly_increasing_witness:
  "''AHA'' \<in> set (sites (processData exampleRows))
   \<and> differencesBySite (processData exampleRows) ''AHA''
       = Some [\<lparr>distAlong = 0, difference = Some 1\<rparr>, \<lparr>distAlong = 1, difference = Some (- 1)\<rparr>]
   \<and> (\<exists>D I. differencesBySite (processData exampleRows) ''AHA'' = Some D
           \<and> integralBySite (processData exampleRows) ''AHA'' = Some I
           \<and> sorted_wrt (<) (map distAlong D)
           \<and> sorted_wrt (<) (map distAlong I)
           \<and> 0 < distAlong (D ! 1) - distAlong (D ! (1 - 1)))"
proof -
  have h: "''AHA'' \<in> set (sites (processData exampleRows))"
    by code_simp
  have v: "differencesBySite (processData exampleRows) ''AHA''
       = Some [\<lparr>distAlong = 0, difference = Some 1\<rparr>, \<lparr>distAlong = 1, difference = Some (- 1)\<rparr>]"
    by code_simp
  from distances_strictly_increasing [OF h] obtain D I
    where D: "differencesBySite (processData exampleRows) ''AHA'' = Some D"
      and I: "integralBySite (processData exampleRows) ''AHA'' = Some I"
      and s: "sorted_wrt (<) (map distAlong D)" "sorted_wrt (<) (map distAlong I)"
      and step: "\<forall>i. 0 < i \<and> i < length D \<longrightarrow> 0 < distAlong (D ! i) - distAlong (D ! (i - 1))"
    by blast
  from D v have "D = [\<lparr>distAlong = 0, difference = Some 1\<rparr>,
      \<lparr>distAlong = 1, difference = Some (- 1)\<rparr>]" by simp
  then have "length D = 2" by simp
  with step have "0 < distAlong (D ! 1) - distAlong (D ! (1 - 1))" by simp
  with h v D I s show ?thesis by blast
qed

end
